theory Spec2Isabelle
  imports Main "HOL-Library.AList" "HOL-Library.Multiset"
begin

section \<open>The bead migrator (scripts/migrate-beads.py)\<close>

text \<open>
  The script reads issue records ("beads") from the \<^verbatim>\<open>bd\<close> command, classifies them,
  re-creates them through \<^verbatim>\<open>flowctl.py\<close> and writes markdown files and one JSON mapping.
  The model is a shallow embedding: Python dictionaries are association lists in insertion
  order (\<open>AList.update\<close> assigns in place or appends, as \<^verbatim>\<open>d[k] = v\<close> does), the local
  variables of \<^verbatim>\<open>main\<close> and the outside world (the commands run, the files written, the
  lines printed) are one state record, and every exception the script can raise is a value
  \<open>Inl (error, state at the raise)\<close>.

  Typing assumptions, taken from the data model: a bead is a JSON object with the keys
  \<^verbatim>\<open>id\<close> and \<^verbatim>\<open>title\<close> (strings) and the optional keys \<^verbatim>\<open>description\<close>, \<^verbatim>\<open>issue_type\<close>
  (strings) and \<^verbatim>\<open>priority\<close> (an integer); the answer of \<^verbatim>\<open>flowctl.py\<close> is a JSON object
  with an optional boolean \<^verbatim>\<open>success\<close> and an optional string \<^verbatim>\<open>id\<close>. Strings are ASCII.
\<close>

subsection \<open>Data\<close>

datatype py_error = KeyError string | ValueError | JSONDecodeError

record bead =
  bid :: string
  title :: string
  description :: "string option"
  issue_type :: "string option"
  priority :: "int option"

text \<open>\<^verbatim>\<open>subprocess.CompletedProcess\<close> with \<^verbatim>\<open>capture_output=True, text=True\<close>.\<close>

record completed =
  returncode :: int
  stdout :: string
  stderr :: string

record flow_json =
  success :: "bool option"
  fid :: "string option"

text \<open>
  The outside world. \<open>run_flowctl n cmd\<close> is what the \<open>n\<close>-th run of the destination
  command (counted from 0) answers to the argument vector \<open>cmd\<close>. \<^verbatim>\<open>json.loads\<close> is a
  parameter, at the two types the script reads; \<open>None\<close> stands for \<^verbatim>\<open>JSONDecodeError\<close>.
\<close>

record env =
  bd_list :: completed
  bd_show :: "string \<Rightarrow> completed"
  run_flowctl :: "nat \<Rightarrow> string list \<Rightarrow> completed"
  loads_beads :: "string \<Rightarrow> bead list option"
  loads_flow :: "string \<Rightarrow> flow_json option"

datatype event =
    Run "string list"
  | Stderr string
  | Stdout string
  | WriteText string string
  | WriteJson string "(string \<times> string) list"

text \<open>
  \<open>Run cmd\<close> is one \<^verbatim>\<open>subprocess.run(cmd)\<close>, \<open>Stderr\<close> and \<open>Stdout\<close> one \<^verbatim>\<open>print\<close>,
  \<open>WriteText path content\<close> one \<^verbatim>\<open>Path(path).write_text(content)\<close>, and
  \<open>WriteJson path d\<close> the \<^verbatim>\<open>write_text(json.dumps(d, indent=2))\<close> of the mapping.
\<close>

record state =
  epics :: "(string \<times> bead) list"
  subtasks :: "(string \<times> bead list) list"
  standalone :: "bead list"
  bead_to_flow :: "(string \<times> string) list"
  trace :: "event list"
  ncalls :: nat

type_synonym outcome = "(py_error \<times> state) + state"

definition init_state :: state where
  "init_state = \<lparr>epics = [], subtasks = [], standalone = [], bead_to_flow = [],
     trace = [], ncalls = 0\<rparr>"

definition emit :: "event \<Rightarrow> state \<Rightarrow> state" where
  "emit e s = s\<lparr>trace := trace s @ [e]\<rparr>"

definition and_then :: "outcome \<Rightarrow> (state \<Rightarrow> outcome) \<Rightarrow> outcome" where
  "and_then r f = (case r of Inl e \<Rightarrow> Inl e | Inr s \<Rightarrow> f s)"

text \<open>A \<^verbatim>\<open>for\<close> loop over a list fixed when the loop starts; an exception ends it.\<close>

fun for_each :: "('a \<Rightarrow> state \<Rightarrow> outcome) \<Rightarrow> 'a list \<Rightarrow> state \<Rightarrow> outcome" where
  "for_each f [] s = Inr s"
| "for_each f (x # xs) s = (case f x s of Inl e \<Rightarrow> Inl e | Inr s' \<Rightarrow> for_each f xs s')"

subsection \<open>Strings and integers\<close>

definition nl :: string where
  "nl = [CHR 0x0A]"

definition dot :: char where
  "dot = CHR ''.''"

text \<open>\<^verbatim>\<open>s.rsplit(sep, 1)\<close>: split at the last separator, or the string alone.\<close>

definition rsplit1 :: "char \<Rightarrow> string \<Rightarrow> string list" where
  "rsplit1 sep s =
     (if sep \<in> set s
      then [rev (tl (dropWhile (\<lambda>c. c \<noteq> sep) (rev s))), rev (takeWhile (\<lambda>c. c \<noteq> sep) (rev s))]
      else [s])"

definition digit_char :: "nat \<Rightarrow> char" where
  "digit_char n = ''0123456789'' ! n"

function str_nat :: "nat \<Rightarrow> string" where
  "str_nat n = (if n < 10 then [digit_char n] else str_nat (n div 10) @ [digit_char (n mod 10)])"
  by pat_completeness auto
termination
  by (relation "measure id") auto

declare str_nat.simps [simp del]

text \<open>\<^verbatim>\<open>str(i)\<close> of a Python integer.\<close>

definition str_int :: "int \<Rightarrow> string" where
  "str_int i = (if i < 0 then ''-'' @ str_nat (nat (- i)) else str_nat (nat i))"

text \<open>
  \<^verbatim>\<open>int(s)\<close> of a string, base 10: white space around, one optional sign, digits with
  single underscores between them. \<open>None\<close> stands for \<^verbatim>\<open>ValueError\<close>.
\<close>

definition is_space :: "char \<Rightarrow> bool" where
  "is_space c = (c \<in> set [CHR 0x09, CHR 0x0A, CHR 0x0B, CHR 0x0C, CHR 0x0D,
                            CHR 0x1C, CHR 0x1D, CHR 0x1E, CHR 0x1F, CHR 0x20])"

definition strip :: "string \<Rightarrow> string" where
  "strip s = rev (dropWhile is_space (rev (dropWhile is_space s)))"

definition digit_val :: "char \<Rightarrow> nat option" where
  "digit_val c = map_of (zip ''0123456789'' [0, 1, 2, 3, 4, 5, 6, 7, 8, 9]) c"

fun digits_value :: "nat \<Rightarrow> string \<Rightarrow> nat option" where
  "digits_value acc [] = Some acc"
| "digits_value acc (c # cs) =
     (case digit_val c of
        Some d \<Rightarrow> digits_value (10 * acc + d) cs
      | None \<Rightarrow>
          (if c = CHR ''_'' \<and> cs \<noteq> [] \<and> digit_val (hd cs) \<noteq> None
           then digits_value acc cs else None))"

definition py_int :: "string \<Rightarrow> int option" where
  "py_int s =
     (let t = strip s;
          neg = (t \<noteq> [] \<and> hd t = CHR ''-'');
          u = (if t \<noteq> [] \<and> (hd t = CHR ''-'' \<or> hd t = CHR ''+'') then tl t else t)
      in if u = [] \<or> digit_val (hd u) = None then None
         else map_option (\<lambda>n. if neg then - int n else int n) (digits_value 0 u))"

subsection \<open>The two commands\<close>

definition FLOWCTL :: string where
  "FLOWCTL = ''/Users/gordon/work/gmickel-claude-marketplace/plugins/flow-next/scripts/flowctl.py''"

text \<open>
  \<^verbatim>\<open>flowctl(*args)\<close>: a non-zero exit status and output that is not JSON are reported on
  the error stream and answered by \<^verbatim>\<open>None\<close>.
\<close>

definition flowctl :: "env \<Rightarrow> string list \<Rightarrow> state \<Rightarrow> flow_json option \<times> state" where
  "flowctl env args s =
     (let cmd = [''python3'', FLOWCTL] @ args @ [''--json''];
          result = run_flowctl env (ncalls s) cmd;
          s1 = emit (Run cmd) (s\<lparr>ncalls := Suc (ncalls s)\<rparr>)
      in if returncode result \<noteq> 0
         then (None, emit (Stderr (''Error: '' @ stderr result)) s1)
         else (case loads_flow env (stdout result) of
                 None \<Rightarrow> (None, emit (Stderr (''Invalid JSON: '' @ stdout result)) s1)
               | Some j \<Rightarrow> (Some j, s1)))"

text \<open>\<^verbatim>\<open>result and result.get('success')\<close>, as a condition.\<close>

definition succeeded :: "flow_json option \<Rightarrow> bool" where
  "succeeded r = (case r of None \<Rightarrow> False | Some j \<Rightarrow> success j = Some True)"

text \<open>
  \<^verbatim>\<open>get_beads()\<close> and \<^verbatim>\<open>get_bead(bid)\<close>: the exit status is not read, and
  \<^verbatim>\<open>json.loads\<close> is not guarded.
\<close>

definition get_beads :: "env \<Rightarrow> state \<Rightarrow> (py_error \<times> state) + (bead list \<times> state)" where
  "get_beads env s =
     (let result = bd_list env;
          s1 = emit (Run [''bd'', ''list'', ''--status=open'', ''--json'']) s
      in case loads_beads env (stdout result) of
           None \<Rightarrow> Inl (JSONDecodeError, s1)
         | Some data \<Rightarrow> Inr (data, s1))"

definition get_bead :: "env \<Rightarrow> string \<Rightarrow> state \<Rightarrow> (py_error \<times> state) + (bead option \<times> state)" where
  "get_bead env b s =
     (let result = bd_show env b;
          s1 = emit (Run [''bd'', ''show'', b, ''--json'']) s
      in case loads_beads env (stdout result) of
           None \<Rightarrow> Inl (JSONDecodeError, s1)
         | Some data \<Rightarrow> Inr ((case data of [] \<Rightarrow> None | x # _ \<Rightarrow> Some x), s1))"

definition write_spec :: "string \<Rightarrow> string \<Rightarrow> state \<Rightarrow> state" where
  "write_spec path content s = emit (WriteText path content) s"

subsection \<open>Classification (lines 48 to 72)\<close>

definition classify_bead :: "state \<Rightarrow> bead \<Rightarrow> state" where
  "classify_bead s b =
     (if dot \<in> set (bid b) then
        (let parent = rsplit1 dot (bid b) ! 0;
             cur = (case map_of (subtasks s) parent of None \<Rightarrow> [] | Some bs \<Rightarrow> bs)
         in s\<lparr>subtasks := AList.update parent (cur @ [b]) (subtasks s)\<rparr>)
      else if issue_type b = Some ''epic'' then s\<lparr>epics := AList.update (bid b) b (epics s)\<rparr>
      else s\<lparr>standalone := standalone s @ [b]\<rparr>)"

definition classify :: "bead list \<Rightarrow> state \<Rightarrow> state" where
  "classify beads s = foldl classify_bead s beads"

text \<open>The body of the loop "Find implicit epics", for one key of \<^verbatim>\<open>subtasks\<close>.\<close>

definition resolve_parent :: "env \<Rightarrow> string \<Rightarrow> state \<Rightarrow> outcome" where
  "resolve_parent env parent s =
     (if map_of (epics s) parent \<noteq> None then Inr s
      else (case get_bead env parent s of
              Inl e \<Rightarrow> Inl e
            | Inr (None, s1) \<Rightarrow> Inr s1
            | Inr (Some parent_bead, s1) \<Rightarrow>
                Inr (s1\<lparr>epics := AList.update parent parent_bead (epics s1),
                        standalone := filter (\<lambda>b. bid b \<noteq> parent) (standalone s1)\<rparr>)))"

definition discover :: "env \<Rightarrow> outcome" where
  "discover env =
     (case get_beads env init_state of
        Inl e \<Rightarrow> Inl e
      | Inr (beads, s0) \<Rightarrow>
          (let s1 = classify beads s0
           in for_each (resolve_parent env) (map fst (subtasks s1)) s1))"

subsection \<open>Epics (lines 74 to 116)\<close>

definition preferred :: "string list" where
  "preferred = [''gno-ub9'', ''gno-65x'', ''gno-2yb'', ''gno-b0n'']"

definition epic_order :: "(string \<times> bead) list \<Rightarrow> string list" where
  "epic_order es =
     foldl (\<lambda>ord eid. if eid \<in> set ord then ord else ord @ [eid]) preferred (map fst es)"

definition opt_str :: "string option \<Rightarrow> string \<Rightarrow> string" where
  "opt_str v d = (case v of None \<Rightarrow> d | Some x \<Rightarrow> x)"

definition prio :: "bead \<Rightarrow> int" where
  "prio b = (case priority b of None \<Rightarrow> 2 | Some p \<Rightarrow> p)"

definition epic_spec :: "string \<Rightarrow> bead \<Rightarrow> string \<Rightarrow> string \<Rightarrow> string" where
  "epic_spec src b deflt desc =
     ''# '' @ title b @ nl @ nl @
     ''**Migrated from:** '' @ src @ nl @
     ''**Original type:** '' @ opt_str (issue_type b) deflt @ nl @
     ''**Priority:** P'' @ str_int (prio b) @ nl @ nl @
     ''---'' @ nl @ nl @
     desc @ nl"

definition create_epic :: "env \<Rightarrow> string \<Rightarrow> state \<Rightarrow> outcome" where
  "create_epic env eid s =
     (if eid = ''gno-ub9'' then Inr s
      else (case map_of (epics s) eid of
              None \<Rightarrow> Inl (KeyError eid, s)
            | Some epic \<Rightarrow>
                (case flowctl env [''epic'', ''create'', ''--title'', title epic] s of
                   (result, s1) \<Rightarrow>
                     (if succeeded result then
                        (case fid (the result) of
                           None \<Rightarrow> Inl (KeyError ''id'', s1)
                         | Some flow_id \<Rightarrow>
                             (let s2 = s1\<lparr>bead_to_flow := AList.update eid flow_id (bead_to_flow s1)\<rparr>;
                                  s3 = emit (Stdout (eid @ '' -> '' @ flow_id @ '': '' @
                                                     take 50 (title epic) @ ''...'')) s2;
                                  spec_path = ''.flow/specs/'' @ flow_id @ ''.md'';
                                  desc = opt_str (description epic)
                                           (''# '' @ title epic @ nl @ nl @
                                            ''Migrated from beads '' @ eid)
                              in Inr (write_spec spec_path (epic_spec eid epic ''epic'' desc) s3)))
                      else Inr s1))))"

definition migrate_epics :: "env \<Rightarrow> state \<Rightarrow> outcome" where
  "migrate_epics env s =
     (let order = epic_order (epics s);
          s1 = emit (Stdout ''=== Creating Epics ==='') s;
          s2 = s1\<lparr>bead_to_flow := AList.update ''gno-ub9'' ''fn-1'' (bead_to_flow s1)\<rparr>;
          s3 = emit (Stdout ''gno-ub9 -> fn-1 (already created)'') s2
      in for_each (create_epic env) order s3)"

subsection \<open>Standalone beads (lines 118 to 159)\<close>

definition standalone_task_content :: "bead \<Rightarrow> string \<Rightarrow> string" where
  "standalone_task_content b desc =
     ''# '' @ title b @ nl @ nl @
     ''## Description'' @ nl @ nl @
     desc @ nl @ nl @
     ''## Acceptance Criteria'' @ nl @ nl @
     ''- [ ] Implementation complete'' @ nl @
     ''- [ ] Tests passing'' @ nl @
     ''- [ ] Documentation updated'' @ nl"

definition create_standalone :: "env \<Rightarrow> bead \<Rightarrow> state \<Rightarrow> outcome" where
  "create_standalone env b s =
     (case flowctl env [''epic'', ''create'', ''--title'', title b] s of
        (result, s1) \<Rightarrow>
          (if succeeded result then
             (case fid (the result) of
                None \<Rightarrow> Inl (KeyError ''id'', s1)
              | Some flow_id \<Rightarrow>
                  (let s2 = s1\<lparr>bead_to_flow := AList.update (bid b) flow_id (bead_to_flow s1)\<rparr>;
                       s3 = emit (Stdout (bid b @ '' -> '' @ flow_id @ '': '' @
                                          take 50 (title b) @ ''...'')) s2;
                       spec_path = ''.flow/specs/'' @ flow_id @ ''.md'';
                       desc = opt_str (description b) (''# '' @ title b);
                       s4 = write_spec spec_path (epic_spec (bid b) b ''task'' desc) s3
                   in (case flowctl env [''task'', ''create'', ''--epic'', flow_id, ''--title'',
                                         ''Implement: '' @ take 50 (title b)] s4 of
                         (task_result, s5) \<Rightarrow>
                           (if succeeded task_result then
                              (case fid (the task_result) of
                                 None \<Rightarrow> Inl (KeyError ''id'', s5)
                               | Some task_id \<Rightarrow>
                                   Inr (write_spec (''.flow/tasks/'' @ task_id @ ''.md'')
                                          (standalone_task_content b desc) s5))
                            else Inr s5))))
           else Inr s1))"

definition migrate_standalone :: "env \<Rightarrow> state \<Rightarrow> outcome" where
  "migrate_standalone env s =
     for_each (create_standalone env) (standalone s)
       (emit (Stdout (nl @ ''=== Creating Standalone Epics ==='')) s)"

subsection \<open>Tasks under epics (lines 161 to 205)\<close>

text \<open>The key of \<^verbatim>\<open>tasks.sort\<close> (line 172).\<close>

definition suffix_key :: "bead \<Rightarrow> py_error + int" where
  "suffix_key t =
     (if dot \<in> set (bid t)
      then (case py_int (rsplit1 dot (bid t) ! 1) of None \<Rightarrow> Inl ValueError | Some k \<Rightarrow> Inr k)
      else Inr 0)"

text \<open>
  \<^verbatim>\<open>list.sort(key=...)\<close> computes the key of every element, in order, and raises what the
  first failing key raises; then it sorts by the keys, keeping equal keys in their order.
\<close>

fun with_keys :: "bead list \<Rightarrow> py_error + (int \<times> bead) list" where
  "with_keys [] = Inr []"
| "with_keys (t # ts) =
     (case suffix_key t of
        Inl e \<Rightarrow> Inl e
      | Inr k \<Rightarrow> (case with_keys ts of Inl e \<Rightarrow> Inl e | Inr kts \<Rightarrow> Inr ((k, t) # kts)))"

definition sort_tasks :: "bead list \<Rightarrow> py_error + bead list" where
  "sort_tasks ts =
     (case with_keys ts of Inl e \<Rightarrow> Inl e | Inr kts \<Rightarrow> Inr (map snd (sort_key fst kts)))"

definition task_args :: "string \<Rightarrow> bead \<Rightarrow> string list" where
  "task_args flow_epic task =
     [''task'', ''create'', ''--epic'', flow_epic, ''--title'', title task,
      ''--priority'', str_int (prio task * 10)]"

definition task_content :: "bead \<Rightarrow> string \<Rightarrow> string" where
  "task_content b desc =
     ''# '' @ title b @ nl @ nl @
     ''**Migrated from:** '' @ bid b @ nl @
     ''**Priority:** P'' @ str_int (prio b) @ nl @ nl @
     ''## Description'' @ nl @ nl @
     desc @ nl @ nl @
     ''## Acceptance Criteria'' @ nl @ nl @
     ''- [ ] Implementation complete'' @ nl @
     ''- [ ] Tests passing'' @ nl"

definition create_task :: "env \<Rightarrow> string \<Rightarrow> bead \<Rightarrow> state \<Rightarrow> outcome" where
  "create_task env flow_epic task s =
     (case flowctl env (task_args flow_epic task) s of
        (result, s1) \<Rightarrow>
          (if succeeded result then
             (case fid (the result) of
                None \<Rightarrow> Inl (KeyError ''id'', s1)
              | Some task_flow_id \<Rightarrow>
                  (let s2 = s1\<lparr>bead_to_flow := AList.update (bid task) task_flow_id (bead_to_flow s1)\<rparr>;
                       s3 = emit (Stdout (''  '' @ bid task @ '' -> '' @ task_flow_id @ '': '' @
                                          take 40 (title task) @ ''...'')) s2;
                       desc = opt_str (description task) (''# '' @ title task)
                   in Inr (write_spec (''.flow/tasks/'' @ task_flow_id @ ''.md'')
                             (task_content task desc) s3)))
           else Inr s1))"

text \<open>
  One item of \<^verbatim>\<open>subtasks.items()\<close>. An absent flow id and the empty string both fail
  \<^verbatim>\<open>if not flow_epic\<close>. The sort is in place: the sorted list replaces the dictionary's.
\<close>

definition create_tasks :: "env \<Rightarrow> string \<times> bead list \<Rightarrow> state \<Rightarrow> outcome" where
  "create_tasks env item s =
     (case item of (parent_id, tasks) \<Rightarrow>
        (case map_of (bead_to_flow s) parent_id of
           None \<Rightarrow> Inr (emit (Stdout (''Warning: No flow epic for '' @ parent_id)) s)
         | Some flow_epic \<Rightarrow>
             (if flow_epic = [] then Inr (emit (Stdout (''Warning: No flow epic for '' @ parent_id)) s)
              else
                (let s1 = emit (Stdout (nl @ parent_id @ '' ('' @ flow_epic @ ''):'')) s
                 in (case sort_tasks tasks of
                       Inl e \<Rightarrow> Inl (e, s1)
                     | Inr sorted_tasks \<Rightarrow>
                         for_each (create_task env flow_epic) sorted_tasks
                           (s1\<lparr>subtasks := AList.update parent_id sorted_tasks (subtasks s1)\<rparr>))))))"

definition migrate_subtasks :: "env \<Rightarrow> state \<Rightarrow> outcome" where
  "migrate_subtasks env s =
     for_each (create_tasks env) (subtasks s)
       (emit (Stdout (nl @ ''=== Creating Tasks Under Epics ==='')) s)"

subsection \<open>The mapping file and the whole run (lines 207 to 213)\<close>

definition mapping_path :: string where
  "mapping_path = ''.flow/bead-mapping.json''"

definition write_mapping :: "state \<Rightarrow> outcome" where
  "write_mapping s =
     (let ks = map fst (bead_to_flow s);
          s1 = emit (WriteJson mapping_path (bead_to_flow s)) s;
          s2 = emit (Stdout (nl @ ''=== Migration complete ==='')) s1;
          s3 = emit (Stdout (''Mapping saved to '' @ mapping_path)) s2;
          s4 = emit (Stdout (''Epics: '' @ str_nat (length (filter (\<lambda>k. dot \<notin> set k) ks)))) s3
      in Inr (emit (Stdout (''Tasks: '' @ str_nat (length (filter (\<lambda>k. dot \<in> set k) ks)))) s4))"

definition main :: "env \<Rightarrow> outcome" where
  "main env =
     and_then (and_then (and_then (and_then (discover env) (migrate_epics env))
                 (migrate_standalone env)) (migrate_subtasks env)) write_mapping"

subsection \<open>Specification-level notions\<close>

text \<open>
  The words of the specification, to compare the code with: \<^verbatim>\<open>s.split(sep)\<close>,
  \<^verbatim>\<open>sep.join(ws)\<close> and "the id with its last \<open>.\<close>-delimited segment removed".
\<close>

fun split_on :: "char \<Rightarrow> string \<Rightarrow> string list" where
  "split_on sep [] = [[]]"
| "split_on sep (c # cs) =
     (if c = sep then [] # split_on sep cs
      else (c # hd (split_on sep cs)) # tl (split_on sep cs))"

fun join_on :: "char \<Rightarrow> string list \<Rightarrow> string" where
  "join_on sep [] = []"
| "join_on sep [w] = w"
| "join_on sep (w # v # ws) = w @ sep # join_on sep (v # ws)"

definition without_last_segment :: "string \<Rightarrow> string" where
  "without_last_segment s = join_on dot (butlast (split_on dot s))"

text \<open>What the classification loop keeps true of its three containers, over the beads \<open>B\<close> read so far.\<close>

definition parent_of :: "bead \<Rightarrow> string" where
  "parent_of b = rsplit1 dot (bid b) ! 0"

definition sub_ok :: "bead set \<Rightarrow> state \<Rightarrow> bool" where
  "sub_ok B s \<longleftrightarrow> (\<forall>p bs b. (p, bs) \<in> set (subtasks s) \<longrightarrow> b \<in> set bs \<longrightarrow>
       b \<in> B \<and> dot \<in> set (bid b) \<and> p = parent_of b)"

definition epics_ok :: "bead set \<Rightarrow> state \<Rightarrow> bool" where
  "epics_ok B s \<longleftrightarrow> (\<forall>k e. (k, e) \<in> set (epics s) \<longrightarrow> e \<in> B \<and> bid e = k \<and> dot \<notin> set k)"

definition standalone_ok :: "bead set \<Rightarrow> state \<Rightarrow> bool" where
  "standalone_ok B s \<longleftrightarrow> (\<forall>b \<in> set (standalone s). b \<in> B \<and> dot \<notin> set (bid b))"

definition placed :: "state \<Rightarrow> bead \<Rightarrow> bool" where
  "placed s b \<longleftrightarrow>
     (if dot \<in> set (bid b)
      then (\<exists>bs. map_of (subtasks s) (parent_of b) = Some bs \<and> b \<in> set bs)
      else if issue_type b = Some ''epic'' then bid b \<in> fst ` set (epics s)
      else b \<in> set (standalone s))"

subsection \<open>Example environments\<close>

definition mk_bead :: "string \<Rightarrow> string \<Rightarrow> string option \<Rightarrow> int option \<Rightarrow> bead" where
  "mk_bead i t ty p = \<lparr>bid = i, title = t, description = None, issue_type = ty, priority = p\<rparr>"

definition exited :: "int \<Rightarrow> string \<Rightarrow> string \<Rightarrow> completed" where
  "exited rc out err = \<lparr>returncode = rc, stdout = out, stderr = err\<rparr>"

text \<open>A source command that fails: exit status 1, nothing on standard output.\<close>

definition broken_bd :: env where
  "broken_bd = \<lparr>bd_list = exited 1 [] ''bd: no database found'',
     bd_show = (\<lambda>b. exited 1 [] ''bd: no database found''),
     run_flowctl = (\<lambda>n cmd. exited 0 ''{}'' []),
     loads_beads = map_of [(''[]'', [])],
     loads_flow = map_of [(''{}'', \<lparr>success = None, fid = None\<rparr>)]\<rparr>"

text \<open>A source command that prints an empty list and still exits with status 1.\<close>

definition failing_bd :: env where
  "failing_bd = broken_bd\<lparr>bd_list := exited 1 ''[]'' ''bd: warning'',
     bd_show := (\<lambda>b. exited 1 ''[]'' ''bd: warning'')\<rparr>"

subsection \<open>Auxiliary notions for the proofs\<close>

definition flow_cmd :: "string list \<Rightarrow> string list" where
  "flow_cmd args = [''python3'', FLOWCTL] @ args @ [''--json'']"

definition final :: "outcome \<Rightarrow> state" where
  "final r = (case r of Inl (e, s) \<Rightarrow> s | Inr s \<Rightarrow> s)"

definition new_events :: "state \<Rightarrow> state \<Rightarrow> event list" where
  "new_events s s' = drop (length (trace s)) (trace s')"

definition grows :: "(event \<Rightarrow> bool) \<Rightarrow> state \<Rightarrow> state \<Rightarrow> bool" where
  "grows P s s' \<longleftrightarrow> take (length (trace s)) (trace s') = trace s \<and> list_all P (new_events s s')"

fun is_bd :: "event \<Rightarrow> bool" where
  "is_bd (Run cmd) = (take 1 cmd = [''bd''])"
| "is_bd _ = False"


fun is_write :: "event \<Rightarrow> bool" where
  "is_write (WriteText p c) = True"
| "is_write (WriteJson p d) = True"
| "is_write _ = False"

fun is_print :: "event \<Rightarrow> bool" where
  "is_print (Stdout t) = True"
| "is_print (Stderr t) = True"
| "is_print _ = False"

definition call_ok :: "env \<Rightarrow> nat \<Rightarrow> string list \<Rightarrow> bool" where
  "call_ok env n cmd \<longleftrightarrow>
     returncode (run_flowctl env n cmd) = 0 \<and>
     (case loads_flow env (stdout (run_flowctl env n cmd)) of
        None \<Rightarrow> False
      | Some j \<Rightarrow> success j = Some True \<and> (case fid j of None \<Rightarrow> False | Some i \<Rightarrow> i \<noteq> []))"

definition mapped :: "state \<Rightarrow> string set" where
  "mapped s = fst ` set (bead_to_flow s)"

definition nonempty_ids :: "state \<Rightarrow> bool" where
  "nonempty_ids s \<longleftrightarrow> [] \<notin> snd ` set (bead_to_flow s)"

fun later_event :: "event \<Rightarrow> bool" where
  "later_event (Run cmd) = (take 2 cmd = [''python3'', FLOWCTL])"
| "later_event (WriteJson p d) = False"
| "later_event _ = True"

definition advances :: "state \<Rightarrow> state \<Rightarrow> bool" where
  "advances s s' \<longleftrightarrow>
     epics s' = epics s \<and> standalone s' = standalone s \<and>
     mapped s \<subseteq> mapped s' \<and>
     (distinct (map fst (bead_to_flow s)) \<longrightarrow> distinct (map fst (bead_to_flow s'))) \<and>
     grows later_event s s'"

definition epic_args :: "string \<Rightarrow> string list" where
  "epic_args t = [''epic'', ''create'', ''--title'', t]"

definition epic_done :: "string \<Rightarrow> bead \<Rightarrow> string \<Rightarrow> string \<Rightarrow> string \<Rightarrow> state \<Rightarrow> state" where
  "epic_done src b deflt desc flow_id s =
     write_spec (''.flow/specs/'' @ flow_id @ ''.md'') (epic_spec src b deflt desc)
       (emit (Stdout (src @ '' -> '' @ flow_id @ '': '' @ take 50 (title b) @ ''...''))
          (s\<lparr>bead_to_flow := AList.update src flow_id (bead_to_flow s)\<rparr>))"

definition impl_args :: "string \<Rightarrow> bead \<Rightarrow> string list" where
  "impl_args flow_id b =
     [''task'', ''create'', ''--epic'', flow_id, ''--title'', ''Implement: '' @ take 50 (title b)]"

definition standalone_desc :: "bead \<Rightarrow> string" where
  "standalone_desc b = opt_str (description b) (''# '' @ title b)"

definition task_done :: "bead \<Rightarrow> string \<Rightarrow> state \<Rightarrow> state" where
  "task_done task task_flow_id s =
     write_spec (''.flow/tasks/'' @ task_flow_id @ ''.md'')
       (task_content task (opt_str (description task) (''# '' @ title task)))
       (emit (Stdout (''  '' @ bid task @ '' -> '' @ task_flow_id @ '': '' @
                      take 40 (title task) @ ''...''))
          (s\<lparr>bead_to_flow := AList.update (bid task) task_flow_id (bead_to_flow s)\<rparr>))"

definition show_cmd :: "string \<Rightarrow> event" where
  "show_cmd p = Run [''bd'', ''show'', p, ''--json'']"

definition list_cmd :: event where
  "list_cmd = Run [''bd'', ''list'', ''--status=open'', ''--json'']"

definition raised :: "outcome \<Rightarrow> py_error option" where
  "raised r = (case r of Inl (e, s) \<Rightarrow> Some e | Inr s \<Rightarrow> None)"

definition resolved :: "env \<Rightarrow> string \<Rightarrow> state \<Rightarrow> state \<Rightarrow> bool" where
  "resolved env p s s' \<longleftrightarrow>
     subtasks s' = subtasks s \<and> bead_to_flow s' = bead_to_flow s \<and> ncalls s' = ncalls s \<and>
     trace s' = trace s @ (if map_of (epics s) p = None then [show_cmd p] else []) \<and>
     (\<forall>q. q \<noteq> p \<longrightarrow> map_of (epics s') q = map_of (epics s) q) \<and>
     (map_of (epics s) p \<noteq> None \<longrightarrow> map_of (epics s') p = map_of (epics s) p) \<and>
     (distinct (map fst (epics s)) \<longrightarrow> distinct (map fst (epics s'))) \<and>
     (standalone s' = standalone s \<and> map_of (epics s') p = map_of (epics s) p \<or>
      standalone s' = filter (\<lambda>b. bid b \<noteq> p) (standalone s) \<and> map_of (epics s) p = None \<and>
        map_of (epics s') p \<noteq> None)"

definition promotes :: "state \<Rightarrow> state \<Rightarrow> bool" where
  "promotes s s' \<longleftrightarrow>
     subtasks s' = subtasks s \<and> bead_to_flow s' = bead_to_flow s \<and> ncalls s' = ncalls s \<and>
     (distinct (map fst (epics s)) \<longrightarrow> distinct (map fst (epics s'))) \<and>
     set (standalone s') \<subseteq> set (standalone s) \<and>
     (\<forall>q. map_of (epics s) q \<noteq> None \<longrightarrow> map_of (epics s') q = map_of (epics s) q) \<and>
     (\<forall>q. map_of (epics s) q = None \<longrightarrow> map_of (epics s') q \<noteq> None \<longrightarrow>
          q \<notin> bid ` set (standalone s')) \<and>
     (\<forall>b \<in> set (standalone s). map_of (epics s') (bid b) = None \<or> map_of (epics s) (bid b) \<noteq> None \<longrightarrow>
          b \<in> set (standalone s')) \<and>
     grows is_bd s s'"



definition listed :: "bead list \<Rightarrow> state" where
  "listed beads = classify beads (emit list_cmd init_state)"




definition three_epics :: "bead list" where
  "three_epics = [mk_bead ''gno-65x'' ''Search'' (Some ''epic'') None,
                  mk_bead ''gno-2yb'' ''Sync'' (Some ''epic'') (Some 1),
                  mk_bead ''gno-b0n'' ''Docs'' (Some ''epic'') None]"

section \<open>Properties\<close>

subsection \<open>Splitting ids\<close>

lemma split_on_nonempty [simp]: "split_on sep s \<noteq> []"
  by (induction s) auto

lemma split_on_no_sep: "sep \<notin> set s \<Longrightarrow> split_on sep s = [s]"
  by (induction s) auto

lemma split_on_append: "split_on sep (p @ sep # q) = split_on sep p @ split_on sep q"
  by (induction p) (auto simp: neq_Nil_conv)

lemma join_split: "join_on sep (split_on sep s) = s"
proof (induction s)
  case Nil
  then show ?case by simp
next
  case (Cons c cs)
  obtain w ws where ws: "split_on sep cs = w # ws"
    by (cases "split_on sep cs") auto
  with Cons show ?case by (cases ws) auto
qed

lemma rsplit1_decomp:
  assumes "sep \<in> set s"
  shows "s = rsplit1 sep s ! 0 @ sep # rsplit1 sep s ! 1 \<and> sep \<notin> set (rsplit1 sep s ! 1)"
proof -
  let ?r = "rev s"
  have "sep \<in> set ?r" using assms by simp
  then have d: "dropWhile (\<lambda>c. c \<noteq> sep) ?r \<noteq> []" by (simp add: dropWhile_eq_Nil_conv)
  then have h: "hd (dropWhile (\<lambda>c. c \<noteq> sep) ?r) = sep"
    using hd_dropWhile[of "\<lambda>c. c \<noteq> sep" ?r] by auto
  have "?r = takeWhile (\<lambda>c. c \<noteq> sep) ?r @ sep # tl (dropWhile (\<lambda>c. c \<noteq> sep) ?r)"
    using d h by (metis takeWhile_dropWhile_id list.collapse)
  then have "rev ?r = rev (takeWhile (\<lambda>c. c \<noteq> sep) ?r @ sep # tl (dropWhile (\<lambda>c. c \<noteq> sep) ?r))"
    by simp
  then have "s = rev (tl (dropWhile (\<lambda>c. c \<noteq> sep) ?r)) @ sep # rev (takeWhile (\<lambda>c. c \<noteq> sep) ?r)"
    by simp
  moreover have "sep \<notin> set (rev (takeWhile (\<lambda>c. c \<noteq> sep) ?r))"
    by (auto dest: set_takeWhileD)
  ultimately show ?thesis using assms by (simp add: rsplit1_def)
qed

lemma rsplit1_parent:
  assumes "dot \<in> set s"
  shows "rsplit1 dot s ! 0 = without_last_segment s"
proof -
  let ?p = "rsplit1 dot s ! 0" and ?q = "rsplit1 dot s ! 1"
  from rsplit1_decomp[OF assms] have s: "s = ?p @ dot # ?q" and q: "dot \<notin> set ?q" by auto
  have "split_on dot s = split_on dot ?p @ [?q]"
    using split_on_append[of dot ?p ?q] split_on_no_sep[OF q] s by simp
  then show ?thesis by (simp add: without_last_segment_def join_split)
qed

subsection \<open>Classification\<close>

lemma classify_snoc: "classify (bs @ [b]) s = classify_bead (classify bs s) b"
  by (simp add: classify_def)

lemma classify_Nil [simp]: "classify [] s = s"
  by (simp add: classify_def)

lemma classify_bead_other [simp]:
  "bead_to_flow (classify_bead s b) = bead_to_flow s"
  "trace (classify_bead s b) = trace s"
  "ncalls (classify_bead s b) = ncalls s"
  by (simp_all add: classify_bead_def Let_def)

lemma classify_other [simp]:
  "bead_to_flow (classify bs s) = bead_to_flow s"
  "trace (classify bs s) = trace s"
  "ncalls (classify bs s) = ncalls s"
  by (induction bs rule: rev_induct) (simp_all add: classify_snoc)
lemma set_update_subset: "(k, v) \<in> set (AList.update k' v' al) \<Longrightarrow> (k, v) = (k', v') \<or> (k, v) \<in> set al"
  by (induction al) (auto split: if_splits)

lemma classify_bead_cases:
  "classify_bead s b =
     (if dot \<in> set (bid b) then
        s\<lparr>subtasks := AList.update (parent_of b)
             ((case map_of (subtasks s) (parent_of b) of None \<Rightarrow> [] | Some bs \<Rightarrow> bs) @ [b]) (subtasks s)\<rparr>
      else if issue_type b = Some ''epic'' then s\<lparr>epics := AList.update (bid b) b (epics s)\<rparr>
      else s\<lparr>standalone := standalone s @ [b]\<rparr>)"
  by (simp add: classify_bead_def parent_of_def Let_def)

lemma distinct_classify_bead:
  "distinct (map fst (epics s)) \<Longrightarrow> distinct (map fst (epics (classify_bead s b)))"
  "distinct (map fst (subtasks s)) \<Longrightarrow> distinct (map fst (subtasks (classify_bead s b)))"
  by (simp_all add: classify_bead_cases distinct_update)

lemma sub_ok_step:
  assumes "sub_ok B s"
  shows "sub_ok (insert b B) (classify_bead s b)"
proof (cases "dot \<in> set (bid b)")
  case True
  let ?cur = "case map_of (subtasks s) (parent_of b) of None \<Rightarrow> [] | Some bs \<Rightarrow> bs"
  have cur: "c \<in> B \<and> dot \<in> set (bid c) \<and> parent_of c = parent_of b" if "c \<in> set ?cur" for c
  proof (cases "map_of (subtasks s) (parent_of b)")
    case None
    with that show ?thesis by simp
  next
    case (Some bs)
    then have "(parent_of b, bs) \<in> set (subtasks s)" by (rule map_of_SomeD)
    with assms that Some show ?thesis unfolding sub_ok_def by simp
  qed
  show ?thesis
    unfolding sub_ok_def
  proof (intro allI impI)
    fix p bs c
    assume m: "(p, bs) \<in> set (subtasks (classify_bead s b))" and c: "c \<in> set bs"
    from m True have "(p, bs) = (parent_of b, ?cur @ [b]) \<or> (p, bs) \<in> set (subtasks s)"
      using set_update_subset[of p bs "parent_of b" "?cur @ [b]" "subtasks s"]
      by (simp add: classify_bead_cases)
    then show "c \<in> insert b B \<and> dot \<in> set (bid c) \<and> p = parent_of c"
    proof
      assume "(p, bs) = (parent_of b, ?cur @ [b])"
      then have p: "p = parent_of b" and "c \<in> set ?cur \<or> c = b" using c by auto
      then show ?thesis
      proof (elim disjE)
        assume "c \<in> set ?cur"
        from cur[OF this] p show ?thesis by simp
      next
        assume "c = b"
        with p True show ?thesis by simp
      qed
    next
      assume "(p, bs) \<in> set (subtasks s)"
      with assms c show ?thesis unfolding sub_ok_def by blast
    qed
  qed
next
  case False
  then have "subtasks (classify_bead s b) = subtasks s" by (simp add: classify_bead_cases)
  with assms show ?thesis unfolding sub_ok_def by auto
qed

lemma epics_ok_step:
  assumes "epics_ok B s"
  shows "epics_ok (insert b B) (classify_bead s b)"
  unfolding epics_ok_def
proof (intro allI impI)
  fix k e
  assume m: "(k, e) \<in> set (epics (classify_bead s b))"
  then have "(k, e) \<in> set (epics s) \<or> (dot \<notin> set (bid b) \<and> (k, e) = (bid b, b))"
    by (auto simp: classify_bead_cases split: if_splits dest: set_update_subset)
  then show "e \<in> insert b B \<and> bid e = k \<and> dot \<notin> set k"
    using assms unfolding epics_ok_def by blast
qed

lemma standalone_ok_step:
  assumes "standalone_ok B s"
  shows "standalone_ok (insert b B) (classify_bead s b)"
  unfolding standalone_ok_def
proof
  fix c
  assume "c \<in> set (standalone (classify_bead s b))"
  then have "c \<in> set (standalone s) \<or> (dot \<notin> set (bid b) \<and> c = b)"
    by (auto simp: classify_bead_cases split: if_splits)
  then show "c \<in> insert b B \<and> dot \<notin> set (bid c)"
    using assms unfolding standalone_ok_def by blast
qed

lemma placed_self: "placed (classify_bead s b) b"
  by (simp add: placed_def classify_bead_cases update_conv' dom_update)

lemma placed_mono:
  assumes "placed s c"
  shows "placed (classify_bead s b) c"
proof (cases "dot \<in> set (bid b)")
  case True
  let ?cur = "case map_of (subtasks s) (parent_of b) of None \<Rightarrow> [] | Some bs \<Rightarrow> bs"
  have eq: "classify_bead s b = s\<lparr>subtasks := AList.update (parent_of b) (?cur @ [b]) (subtasks s)\<rparr>"
    using True by (simp add: classify_bead_cases)
  show ?thesis
  proof (cases "dot \<in> set (bid c)")
    case cd: True
    with assms obtain bs where bs: "map_of (subtasks s) (parent_of c) = Some bs" "c \<in> set bs"
      by (auto simp: placed_def)
    show ?thesis
    proof (cases "parent_of b = parent_of c")
      case True
      with bs have "map_of (subtasks (classify_bead s b)) (parent_of c) = Some (bs @ [b])"
        by (simp add: eq update_conv')
      with bs cd show ?thesis by (simp add: placed_def)
    next
      case False
      with bs have "map_of (subtasks (classify_bead s b)) (parent_of c) = Some bs"
        by (simp add: eq update_conv')
      with bs cd show ?thesis by (simp add: placed_def)
    qed
  next
    case False
    with assms show ?thesis by (simp add: placed_def eq)
  qed
next
  case False
  then have sub: "subtasks (classify_bead s b) = subtasks s"
    and ep: "fst ` set (epics s) \<subseteq> fst ` set (epics (classify_bead s b))"
    and st: "set (standalone s) \<subseteq> set (standalone (classify_bead s b))"
    by (auto simp: classify_bead_cases dom_update)
  with assms show ?thesis
    unfolding placed_def by (auto split: if_splits)
qed

lemma classify_invariants:
  assumes "distinct (map fst (epics s))" "distinct (map fst (subtasks s))"
    "sub_ok B s" "epics_ok B s" "standalone_ok B s" "\<forall>b \<in> B. placed s b"
  shows "distinct (map fst (epics (classify bs s))) \<and> distinct (map fst (subtasks (classify bs s))) \<and>
    sub_ok (B \<union> set bs) (classify bs s) \<and> epics_ok (B \<union> set bs) (classify bs s) \<and>
    standalone_ok (B \<union> set bs) (classify bs s) \<and> (\<forall>b \<in> B \<union> set bs. placed (classify bs s) b)"
proof (induction bs rule: rev_induct)
  case Nil
  with assms show ?case by simp
next
  case (snoc b bs)
  let ?s = "classify bs s"
  have U: "B \<union> set (bs @ [b]) = insert b (B \<union> set bs)" by auto
  show ?case
    unfolding classify_snoc U
  proof (intro conjI ballI)
    show "distinct (map fst (epics (classify_bead ?s b)))"
      using snoc by (simp add: distinct_classify_bead)
    show "distinct (map fst (subtasks (classify_bead ?s b)))"
      using snoc by (simp add: distinct_classify_bead)
    show "sub_ok (insert b (B \<union> set bs)) (classify_bead ?s b)"
      using snoc by (simp add: sub_ok_step)
    show "epics_ok (insert b (B \<union> set bs)) (classify_bead ?s b)"
      using snoc by (simp add: epics_ok_step)
    show "standalone_ok (insert b (B \<union> set bs)) (classify_bead ?s b)"
      using snoc by (simp add: standalone_ok_step)
    fix c assume "c \<in> insert b (B \<union> set bs)"
    then have "c = b \<or> c \<in> B \<union> set bs" by simp
    then show "placed (classify_bead ?s b) c"
      using snoc placed_self[of ?s b] placed_mono[of ?s c b] by blast
  qed
qed

lemma classify_init:
  "distinct (map fst (epics (classify bs init_state))) \<and>
   distinct (map fst (subtasks (classify bs init_state))) \<and>
   sub_ok (set bs) (classify bs init_state) \<and> epics_ok (set bs) (classify bs init_state) \<and>
   standalone_ok (set bs) (classify bs init_state) \<and> (\<forall>b \<in> set bs. placed (classify bs init_state) b)"
  using classify_invariants[of init_state "{}" bs]
  by (simp add: init_state_def sub_ok_def epics_ok_def standalone_ok_def)

text \<open>
  C9. For every bead whose id contains a \<open>.\<close>, the parent id that classification computes
  (\<^verbatim>\<open>bid.rsplit('.', 1)[0]\<close>) is the id with its last \<open>.\<close>-delimited segment removed;
  the bead is filed under that key of \<^verbatim>\<open>subtasks\<close> and under no other.
\<close>

theorem parent_is_id_without_last_segment:
  assumes "b \<in> set beads" and "dot \<in> set (bid b)"
  shows "rsplit1 dot (bid b) ! 0 = without_last_segment (bid b) \<and>
    (\<exists>bs. map_of (subtasks (classify beads init_state)) (without_last_segment (bid b)) = Some bs
          \<and> b \<in> set bs) \<and>
    (\<forall>p bs. (p, bs) \<in> set (subtasks (classify beads init_state)) \<longrightarrow> b \<in> set bs \<longrightarrow>
          p = without_last_segment (bid b))"
proof -
  have p: "parent_of b = without_last_segment (bid b)"
    using assms(2) by (simp add: parent_of_def rsplit1_parent)
  from classify_init[of beads] assms(1)
  have "placed (classify beads init_state) b" and "sub_ok (set beads) (classify beads init_state)"
    by auto
  then show ?thesis
    using assms(2) p unfolding placed_def sub_ok_def by (auto simp: parent_of_def)
qed

theorem parent_is_id_without_last_segment_witness:
  "mk_bead ''gno-ub9.12'' ''Login'' None None \<in> set [mk_bead ''gno-ub9.12'' ''Login'' None None] \<and>
   dot \<in> set (bid (mk_bead ''gno-ub9.12'' ''Login'' None None)) \<and>
   rsplit1 dot ''gno-ub9.12'' ! 0 = ''gno-ub9'' \<and>
   without_last_segment ''gno-ub9.12'' = ''gno-ub9'' \<and>
   map_of (subtasks (classify [mk_bead ''gno-ub9.12'' ''Login'' None None] init_state)) ''gno-ub9''
     = Some [mk_bead ''gno-ub9.12'' ''Login'' None None]"
  using parent_is_id_without_last_segment
    [of "mk_bead ''gno-ub9.12'' ''Login'' None None" "[mk_bead ''gno-ub9.12'' ''Login'' None None]"]
  by (simp add: mk_bead_def dot_def without_last_segment_def rsplit1_def classify_def
      classify_bead_def init_state_def)

subsection \<open>The source commands\<close>

text \<open>
  C2. \<^verbatim>\<open>get_beads\<close> and \<^verbatim>\<open>get_bead\<close> do not report a failure and return nothing:
  when the source command exits with status 1 and prints nothing, \<^verbatim>\<open>json.loads\<close> raises
  and nothing catches it, so the run ends there, after the one command; when it prints a
  list and exits with status 1, the list is used and nothing is reported.
\<close>

theorem source_cli_failure_raises:
  "get_beads broken_bd init_state =
     Inl (JSONDecodeError, emit (Run [''bd'', ''list'', ''--status=open'', ''--json'']) init_state) \<and>
   get_bead broken_bd ''gno-ub9'' init_state =
     Inl (JSONDecodeError, emit (Run [''bd'', ''show'', ''gno-ub9'', ''--json'']) init_state) \<and>
   main broken_bd =
     Inl (JSONDecodeError, emit (Run [''bd'', ''list'', ''--status=open'', ''--json'']) init_state) \<and>
   get_beads failing_bd init_state =
     Inr ([], emit (Run [''bd'', ''list'', ''--status=open'', ''--json'']) init_state) \<and>
   get_bead failing_bd ''gno-ub9'' init_state =
     Inr (None, emit (Run [''bd'', ''show'', ''gno-ub9'', ''--json'']) init_state)"
  by (simp add: get_beads_def get_bead_def broken_bd_def failing_bd_def exited_def main_def
      discover_def and_then_def)

lemma final_simps [simp]: "final (Inl (e, s)) = s" "final (Inr s) = s"
  by (simp_all add: final_def)

lemma emit_fields [simp]:
  "epics (emit e s) = epics s" "subtasks (emit e s) = subtasks s"
  "standalone (emit e s) = standalone s" "bead_to_flow (emit e s) = bead_to_flow s"
  "ncalls (emit e s) = ncalls s" "trace (emit e s) = trace s @ [e]"
  by (simp_all add: emit_def)

lemma write_spec_fields [simp]:
  "epics (write_spec p c s) = epics s" "subtasks (write_spec p c s) = subtasks s"
  "standalone (write_spec p c s) = standalone s" "bead_to_flow (write_spec p c s) = bead_to_flow s"
  "ncalls (write_spec p c s) = ncalls s" "trace (write_spec p c s) = trace s @ [WriteText p c]"
  by (simp_all add: write_spec_def)

lemma new_events_append: "trace s' = trace s @ new \<Longrightarrow> new_events s s' = new"
  by (simp add: new_events_def)

lemma growsI: "trace s' = trace s @ new \<Longrightarrow> list_all P new \<Longrightarrow> grows P s s'"
  by (simp add: grows_def new_events_append)

lemma growsD: "grows P s s' \<Longrightarrow> trace s' = trace s @ new_events s s' \<and> list_all P (new_events s s')"
  unfolding grows_def new_events_def by (metis append_take_drop_id)

lemma grows_refl [simp]: "grows P s s"
  by (simp add: grows_def new_events_def)

lemma grows_same_trace: "trace s' = trace s \<Longrightarrow> grows P s s'"
  by (simp add: grows_def new_events_def)

lemma grows_trans: "grows P s s' \<Longrightarrow> grows P s' s'' \<Longrightarrow> grows P s s''"
proof -
  assume a: "grows P s s'" and b: "grows P s' s''"
  from growsD[OF a] growsD[OF b]
  have "trace s'' = trace s @ (new_events s s' @ new_events s' s'')"
    and "list_all P (new_events s s' @ new_events s' s'')" by simp_all
  then show ?thesis by (rule growsI)
qed

lemma grows_mono: "grows P s s' \<Longrightarrow> (\<And>e. P e \<Longrightarrow> Q e) \<Longrightarrow> grows Q s s'"
  unfolding grows_def by (auto simp: list_all_iff)

lemma new_events_trans:
  "grows P s s' \<Longrightarrow> grows Q s' s'' \<Longrightarrow> new_events s s'' = new_events s s' @ new_events s' s''"
proof -
  assume a: "grows P s s'" and b: "grows Q s' s''"
  from growsD[OF a] growsD[OF b]
  have "trace s'' = trace s @ (new_events s s' @ new_events s' s'')" by simp
  then show ?thesis by (rule new_events_append)
qed


lemma for_each_final_induct:
  assumes step: "\<And>x s. x \<in> set xs \<Longrightarrow> R s (final (f x s))"
    and refl: "\<And>s. R s s" and trans: "\<And>s s' s''. R s s' \<Longrightarrow> R s' s'' \<Longrightarrow> R s s''"
  shows "R s (final (for_each f xs s))"
  using step
proof (induction xs arbitrary: s)
  case Nil
  show ?case by (simp add: refl)
next
  case (Cons x xs)
  show ?case
  proof (cases "f x s")
    case (Inl a)
    obtain e s' where a: "a = (e, s')" by (cases a)
    have "R s (final (f x s))" using Cons.prems by simp
    with Inl a show ?thesis by simp
  next
    case (Inr s')
    have 1: "R s s'" using Cons.prems[of x s] Inr by simp
    have 2: "R s' (final (for_each f xs s'))" using Cons.IH Cons.prems by simp
    from trans[OF 1 2] Inr show ?thesis by simp
  qed
qed

lemma for_each_grows:
  assumes "\<And>x s. x \<in> set xs \<Longrightarrow> grows P s (final (f x s))"
  shows "grows P s (final (for_each f xs s))"
proof (rule for_each_final_induct)
  show "\<And>x s. x \<in> set xs \<Longrightarrow> grows P s (final (f x s))" by (rule assms)
  show "\<And>s. grows P s s" by simp
  show "\<And>s s' s''. grows P s s' \<Longrightarrow> grows P s' s'' \<Longrightarrow> grows P s s''" by (rule grows_trans)
qed

lemma for_each_inv:
  assumes "\<And>x s s'. x \<in> set xs \<Longrightarrow> I s \<Longrightarrow> s' = final (f x s) \<Longrightarrow> I s'" and "I s"
  shows "I (final (for_each f xs s))"
  using assms
proof (induction xs arbitrary: s)
  case Nil
  then show ?case by simp
next
  case (Cons x xs)
  have I1: "I (final (f x s))" using Cons.prems by simp
  show ?case
  proof (cases "f x s")
    case (Inl a)
    then show ?thesis using I1 by simp
  next
    case (Inr s')
    with I1 have "I s'" by simp
    then have "I (final (for_each f xs s'))" using Cons.IH Cons.prems(1) by simp
    with Inr show ?thesis by simp
  qed
qed

text \<open>What a run of the destination command changes.\<close>

lemma flowctl_fields [simp]:
  "epics (snd (flowctl env args s)) = epics s"
  "subtasks (snd (flowctl env args s)) = subtasks s"
  "standalone (snd (flowctl env args s)) = standalone s"
  "bead_to_flow (snd (flowctl env args s)) = bead_to_flow s"
  "ncalls (snd (flowctl env args s)) = Suc (ncalls s)"
  by (simp_all add: flowctl_def Let_def split: option.splits)

lemma flowctl_trace:
  "trace (snd (flowctl env args s)) =
     trace s @ Run (flow_cmd args) #
       (if returncode (run_flowctl env (ncalls s) (flow_cmd args)) \<noteq> 0
        then [Stderr (''Error: '' @ stderr (run_flowctl env (ncalls s) (flow_cmd args)))]
        else if fst (flowctl env args s) = None
        then [Stderr (''Invalid JSON: '' @ stdout (run_flowctl env (ncalls s) (flow_cmd args)))]
        else [])"
  by (simp add: flowctl_def flow_cmd_def Let_def split: option.splits)

lemma flowctl_grows:
  "P (Run (flow_cmd args)) \<Longrightarrow> (\<And>t. P (Stderr t)) \<Longrightarrow> grows P s (snd (flowctl env args s))"
  by (rule growsI[OF flowctl_trace]) simp

lemma succeededD: "succeeded r \<Longrightarrow> \<exists>j. r = Some j \<and> success j = Some True"
  by (cases r) (auto simp: succeeded_def)

lemma take2_flow_cmd [simp]: "take 2 (flow_cmd args) = [''python3'', FLOWCTL]"
  by (simp add: flow_cmd_def numeral_2_eq_2)

lemma advances_refl [simp]: "advances s s"
  by (simp add: advances_def)

lemma advances_trans: "advances s s' \<Longrightarrow> advances s' s'' \<Longrightarrow> advances s s''"
  unfolding advances_def using grows_trans[of later_event s s' s''] by auto

lemma later_flowctl: "grows later_event s (snd (flowctl env args s))"
  by (rule flowctl_grows) simp_all

lemma advances_flowctl: "advances s (snd (flowctl env args s))"
  by (simp add: advances_def mapped_def later_flowctl)

lemma advances_emit: "later_event e \<Longrightarrow> advances s (emit e s)"
  by (simp add: advances_def mapped_def growsI[of _ _ "[e]"])

lemma advances_write_spec: "advances s (write_spec p c s)"
  by (simp add: advances_def mapped_def growsI[of _ _ "[WriteText p c]"])

lemma advances_assign:
  "advances s (s\<lparr>bead_to_flow := AList.update k v (bead_to_flow s)\<rparr>)"
  by (auto simp: advances_def mapped_def dom_update distinct_update grows_same_trace)

lemma advances_subtasks: "advances s (s\<lparr>subtasks := x\<rparr>)"
  by (simp add: advances_def mapped_def grows_same_trace)

text \<open>The three outcomes of each creation step.\<close>

lemma create_epic_skip [simp]: "create_epic env ''gno-ub9'' s = Inr s"
  by (simp add: create_epic_def)

lemma create_epic_missing:
  "eid \<noteq> ''gno-ub9'' \<Longrightarrow> map_of (epics s) eid = None \<Longrightarrow> create_epic env eid s = Inl (KeyError eid, s)"
  by (simp add: create_epic_def)

lemma create_epic_cases:
  assumes "eid \<noteq> ''gno-ub9''" and "map_of (epics s) eid = Some epic"
  shows "create_epic env eid s =
    (let r = flowctl env (epic_args (title epic)) s in
     if succeeded (fst r) then
       (case fid (the (fst r)) of
          None \<Rightarrow> Inl (KeyError ''id'', snd r)
        | Some flow_id \<Rightarrow>
            Inr (epic_done eid epic ''epic''
                   (opt_str (description epic)
                      (''# '' @ title epic @ nl @ nl @ ''Migrated from beads '' @ eid))
                   flow_id (snd r)))
     else Inr (snd r))"
  using assms
  by (simp add: create_epic_def epic_args_def epic_done_def Let_def split: prod.splits option.splits)

lemma advances_epic_done: "advances s (epic_done src b deflt desc flow_id s)"
proof -
  let ?s1 = "s\<lparr>bead_to_flow := AList.update src flow_id (bead_to_flow s)\<rparr>"
  let ?s2 = "emit (Stdout (src @ '' -> '' @ flow_id @ '': '' @ take 50 (title b) @ ''...'')) ?s1"
  have "advances s ?s1" by (rule advances_assign)
  moreover have "advances ?s1 ?s2" by (rule advances_emit) simp
  moreover have "advances ?s2 (epic_done src b deflt desc flow_id s)"
    unfolding epic_done_def by (rule advances_write_spec)
  ultimately show ?thesis by (blast intro: advances_trans)
qed

lemma create_epic_advances: "advances s (final (create_epic env eid s))"
proof (cases "eid = ''gno-ub9''")
  case True
  then show ?thesis by simp
next
  case False
  show ?thesis
  proof (cases "map_of (epics s) eid")
    case None
    with False show ?thesis by (simp add: create_epic_missing)
  next
    case (Some epic)
    let ?r = "flowctl env (epic_args (title epic)) s"
    have a: "advances s (snd ?r)" by (rule advances_flowctl)
    have b: "advances s (epic_done eid epic t d i (snd ?r))" for t d i
      by (rule advances_trans[OF a advances_epic_done])
    show ?thesis
      unfolding create_epic_cases[OF False Some] Let_def
      using a b by (simp split: option.splits)
  qed
qed

lemma create_standalone_cases:
  "create_standalone env b s =
    (let r = flowctl env (epic_args (title b)) s in
     if succeeded (fst r) then
       (case fid (the (fst r)) of
          None \<Rightarrow> Inl (KeyError ''id'', snd r)
        | Some flow_id \<Rightarrow>
            (let s4 = epic_done (bid b) b ''task'' (standalone_desc b) flow_id (snd r);
                 r2 = flowctl env (impl_args flow_id b) s4
             in if succeeded (fst r2) then
                  (case fid (the (fst r2)) of
                     None \<Rightarrow> Inl (KeyError ''id'', snd r2)
                   | Some task_id \<Rightarrow>
                       Inr (write_spec (''.flow/tasks/'' @ task_id @ ''.md'')
                              (standalone_task_content b (standalone_desc b)) (snd r2)))
                else Inr (snd r2)))
     else Inr (snd r))"
  by (simp add: create_standalone_def epic_args_def epic_done_def impl_args_def standalone_desc_def
      Let_def split: prod.splits option.splits)

lemma create_standalone_advances: "advances s (final (create_standalone env b s))"
proof -
  let ?r = "flowctl env (epic_args (title b)) s"
  have a: "advances s (snd ?r)" by (rule advances_flowctl)
  have b: "advances s (snd (flowctl env (impl_args i b) (epic_done (bid b) b t d i (snd ?r))))"
    for t d i
    by (rule advances_trans[OF a advances_trans[OF advances_epic_done advances_flowctl]])
  have c: "advances s (write_spec p c (snd (flowctl env (impl_args i b) (epic_done (bid b) b t d i (snd ?r)))))"
    for t d i p c
    by (rule advances_trans[OF b advances_write_spec])
  show ?thesis
    unfolding create_standalone_cases Let_def
    using a b c by (simp split: option.splits)
qed

lemma create_task_cases:
  "create_task env flow_epic task s =
    (let r = flowctl env (task_args flow_epic task) s in
     if succeeded (fst r) then
       (case fid (the (fst r)) of
          None \<Rightarrow> Inl (KeyError ''id'', snd r)
        | Some task_flow_id \<Rightarrow> Inr (task_done task task_flow_id (snd r)))
     else Inr (snd r))"
  by (simp add: create_task_def task_done_def Let_def split: prod.splits option.splits)

lemma advances_task_done: "advances s (task_done task i s)"
proof -
  let ?s1 = "s\<lparr>bead_to_flow := AList.update (bid task) i (bead_to_flow s)\<rparr>"
  let ?s2 = "emit (Stdout (''  '' @ bid task @ '' -> '' @ i @ '': '' @ take 40 (title task) @ ''...'')) ?s1"
  have "advances s ?s1" by (rule advances_assign)
  moreover have "advances ?s1 ?s2" by (rule advances_emit) simp
  moreover have "advances ?s2 (task_done task i s)"
    unfolding task_done_def by (rule advances_write_spec)
  ultimately show ?thesis by (blast intro: advances_trans)
qed

lemma create_task_advances: "advances s (final (create_task env flow_epic task s))"
proof -
  let ?r = "flowctl env (task_args flow_epic task) s"
  have a: "advances s (snd ?r)" by (rule advances_flowctl)
  have b: "advances s (task_done task i (snd ?r))" for i
    by (rule advances_trans[OF a advances_task_done])
  show ?thesis
    unfolding create_task_cases Let_def
    using a b by (simp split: option.splits)
qed

lemma for_each_advances:
  assumes "\<And>x s. x \<in> set xs \<Longrightarrow> advances s (final (f x s))"
  shows "advances s (final (for_each f xs s))"
proof (rule for_each_final_induct)
  show "\<And>x s. x \<in> set xs \<Longrightarrow> advances s (final (f x s))" by (rule assms)
  show "\<And>s. advances s s" by simp
  show "\<And>s s' s''. advances s s' \<Longrightarrow> advances s' s'' \<Longrightarrow> advances s s''" by (rule advances_trans)
qed

lemma create_tasks_warn:
  "map_of (bead_to_flow s) parent_id = None \<or> map_of (bead_to_flow s) parent_id = Some [] \<Longrightarrow>
   create_tasks env (parent_id, tasks) s =
     Inr (emit (Stdout (''Warning: No flow epic for '' @ parent_id)) s)"
  by (auto simp: create_tasks_def)

lemma create_tasks_go:
  "map_of (bead_to_flow s) parent_id = Some flow_epic \<Longrightarrow> flow_epic \<noteq> [] \<Longrightarrow>
   create_tasks env (parent_id, tasks) s =
     (case sort_tasks tasks of
        Inl e \<Rightarrow> Inl (e, emit (Stdout (nl @ parent_id @ '' ('' @ flow_epic @ ''):'')) s)
      | Inr sorted_tasks \<Rightarrow>
          for_each (create_task env flow_epic) sorted_tasks
            ((emit (Stdout (nl @ parent_id @ '' ('' @ flow_epic @ ''):'')) s)
               \<lparr>subtasks := AList.update parent_id sorted_tasks (subtasks s)\<rparr>))"
  by (simp add: create_tasks_def Let_def split: sum.splits)

lemma create_tasks_advances: "advances s (final (create_tasks env item s))"
proof -
  obtain parent_id tasks where item: "item = (parent_id, tasks)" by (cases item)
  consider "map_of (bead_to_flow s) parent_id = None \<or> map_of (bead_to_flow s) parent_id = Some []"
    | fe where "map_of (bead_to_flow s) parent_id = Some fe" "fe \<noteq> []"
    by (cases "map_of (bead_to_flow s) parent_id") auto
  then show ?thesis
  proof cases
    case 1
    show ?thesis unfolding item create_tasks_warn[OF 1] by (simp add: advances_emit)
  next
    case 2
    let ?s1 = "emit (Stdout (nl @ parent_id @ '' ('' @ fe @ ''):'')) s"
    have a: "advances s ?s1" by (rule advances_emit) simp
    show ?thesis
    proof (cases "sort_tasks tasks")
      case (Inl e)
      with a show ?thesis unfolding item create_tasks_go[OF 2] by simp
    next
      case (Inr ts)
      let ?s2 = "?s1\<lparr>subtasks := AList.update parent_id ts (subtasks s)\<rparr>"
      have b: "advances ?s1 ?s2" by (rule advances_subtasks)
      have c: "advances ?s2 (final (for_each (create_task env fe) ts ?s2))"
        by (rule for_each_advances) (rule create_task_advances)
      from advances_trans[OF a advances_trans[OF b c]] Inr
      show ?thesis unfolding item create_tasks_go[OF 2] by simp
    qed
  qed
qed

lemma and_then_simps [simp]:
  "and_then (Inl e) f = Inl e" "and_then (Inr s) f = f s"
  by (simp_all add: and_then_def)

lemma migrate_epics_advances: "advances s (final (migrate_epics env s))"
proof -
  let ?s1 = "emit (Stdout ''=== Creating Epics ==='') s"
  let ?s2 = "?s1\<lparr>bead_to_flow := AList.update ''gno-ub9'' ''fn-1'' (bead_to_flow ?s1)\<rparr>"
  let ?s3 = "emit (Stdout ''gno-ub9 -> fn-1 (already created)'') ?s2"
  have "advances s ?s1" by (rule advances_emit) simp
  moreover have "advances ?s1 ?s2" by (rule advances_assign)
  moreover have "advances ?s2 ?s3" by (rule advances_emit) simp
  moreover have "advances ?s3 (final (for_each (create_epic env) (epic_order (epics s)) ?s3))"
    by (rule for_each_advances) (rule create_epic_advances)
  ultimately have "advances s (final (for_each (create_epic env) (epic_order (epics s)) ?s3))"
    by (blast intro: advances_trans)
  then show ?thesis by (simp add: migrate_epics_def Let_def)
qed

lemma migrate_standalone_advances: "advances s (final (migrate_standalone env s))"
proof -
  let ?s1 = "emit (Stdout (nl @ ''=== Creating Standalone Epics ==='')) s"
  have "advances s ?s1" by (rule advances_emit) simp
  moreover have "advances ?s1 (final (for_each (create_standalone env) (standalone s) ?s1))"
    by (rule for_each_advances) (rule create_standalone_advances)
  ultimately show ?thesis
    unfolding migrate_standalone_def by (blast intro: advances_trans)
qed

lemma migrate_subtasks_advances: "advances s (final (migrate_subtasks env s))"
proof -
  let ?s1 = "emit (Stdout (nl @ ''=== Creating Tasks Under Epics ==='')) s"
  have "advances s ?s1" by (rule advances_emit) simp
  moreover have "advances ?s1 (final (for_each (create_tasks env) (subtasks s) ?s1))"
    by (rule for_each_advances) (rule create_tasks_advances)
  ultimately show ?thesis
    unfolding migrate_subtasks_def by (blast intro: advances_trans)
qed

lemma raised_simps [simp]: "raised (Inl (e, s)) = Some e" "raised (Inr s) = None"
  by (simp_all add: raised_def)

text \<open>The loop that finds implicit epics.\<close>

lemma resolve_parent_known:
  "map_of (epics s) p \<noteq> None \<Longrightarrow> resolve_parent env p s = Inr s"
  by (simp add: resolve_parent_def)

lemma resolve_parent_fetch:
  "map_of (epics s) p = None \<Longrightarrow>
   resolve_parent env p s =
     (case loads_beads env (stdout (bd_show env p)) of
        None \<Rightarrow> Inl (JSONDecodeError, emit (show_cmd p) s)
      | Some [] \<Rightarrow> Inr (emit (show_cmd p) s)
      | Some (parent_bead # rest) \<Rightarrow>
          Inr ((emit (show_cmd p) s)\<lparr>epics := AList.update p parent_bead (epics s),
                 standalone := filter (\<lambda>b. bid b \<noteq> p) (standalone s)\<rparr>))"
  by (simp add: resolve_parent_def get_bead_def show_cmd_def Let_def split: option.splits list.splits)

lemma resolve_parent_resolved: "resolved env p s (final (resolve_parent env p s))"
proof (cases "map_of (epics s) p")
  case None
  show ?thesis
    unfolding resolve_parent_fetch[OF None]
    using None by (simp add: resolved_def update_conv' distinct_update split: option.splits list.splits)
next
  case (Some e)
  then have "resolve_parent env p s = Inr s" by (simp add: resolve_parent_known)
  with Some show ?thesis by (simp add: resolved_def)
qed

lemma promotes_refl: "promotes s s"
  by (simp add: promotes_def)

lemma promotesD:
  assumes "promotes s s'"
  shows "subtasks s' = subtasks s" "bead_to_flow s' = bead_to_flow s" "ncalls s' = ncalls s"
    "distinct (map fst (epics s)) \<Longrightarrow> distinct (map fst (epics s'))"
    "set (standalone s') \<subseteq> set (standalone s)"
    "map_of (epics s) q \<noteq> None \<Longrightarrow> map_of (epics s') q = map_of (epics s) q"
    "map_of (epics s) q = None \<Longrightarrow> map_of (epics s') q \<noteq> None \<Longrightarrow> q \<notin> bid ` set (standalone s')"
    "b \<in> set (standalone s) \<Longrightarrow>
       map_of (epics s') (bid b) = None \<or> map_of (epics s) (bid b) \<noteq> None \<Longrightarrow> b \<in> set (standalone s')"
    "grows is_bd s s'"
  using assms unfolding promotes_def by blast+

lemma promotesI:
  assumes "subtasks s' = subtasks s" "bead_to_flow s' = bead_to_flow s" "ncalls s' = ncalls s"
    "distinct (map fst (epics s)) \<Longrightarrow> distinct (map fst (epics s'))"
    "set (standalone s') \<subseteq> set (standalone s)"
    "\<And>q. map_of (epics s) q \<noteq> None \<Longrightarrow> map_of (epics s') q = map_of (epics s) q"
    "\<And>q. map_of (epics s) q = None \<Longrightarrow> map_of (epics s') q \<noteq> None \<Longrightarrow> q \<notin> bid ` set (standalone s')"
    "\<And>b. b \<in> set (standalone s) \<Longrightarrow>
       map_of (epics s') (bid b) = None \<or> map_of (epics s) (bid b) \<noteq> None \<Longrightarrow> b \<in> set (standalone s')"
    "grows is_bd s s'"
  shows "promotes s s'"
  unfolding promotes_def using assms by blast

lemma promotes_trans:
  assumes a: "promotes s s'" and b: "promotes s' s''"
  shows "promotes s s''"
proof (rule promotesI)
  show "subtasks s'' = subtasks s" using promotesD(1)[OF a] promotesD(1)[OF b] by simp
  show "bead_to_flow s'' = bead_to_flow s" using promotesD(2)[OF a] promotesD(2)[OF b] by simp
  show "ncalls s'' = ncalls s" using promotesD(3)[OF a] promotesD(3)[OF b] by simp
  show "distinct (map fst (epics s'')) " if "distinct (map fst (epics s))"
    by (rule promotesD(4)[OF b promotesD(4)[OF a that]])
  show "set (standalone s'') \<subseteq> set (standalone s)"
    by (rule subset_trans[OF promotesD(5)[OF b] promotesD(5)[OF a]])
  show "map_of (epics s'') q = map_of (epics s) q" if q: "map_of (epics s) q \<noteq> None" for q
  proof -
    have 1: "map_of (epics s') q = map_of (epics s) q" by (rule promotesD(6)[OF a q])
    then have "map_of (epics s') q \<noteq> None" using q by simp
    then have "map_of (epics s'') q = map_of (epics s') q" by (rule promotesD(6)[OF b])
    with 1 show ?thesis by simp
  qed
  show "q \<notin> bid ` set (standalone s'')"
    if q: "map_of (epics s) q = None" "map_of (epics s'') q \<noteq> None" for q
  proof (cases "map_of (epics s') q = None")
    case True
    then show ?thesis using q(2) by (rule promotesD(7)[OF b])
  next
    case False
    have "q \<notin> bid ` set (standalone s')" by (rule promotesD(7)[OF a q(1) False])
    moreover have "bid ` set (standalone s'') \<subseteq> bid ` set (standalone s')"
      by (rule image_mono[OF promotesD(5)[OF b]])
    ultimately show ?thesis by blast
  qed
  show "c \<in> set (standalone s'')"
    if c: "c \<in> set (standalone s)"
      and d: "map_of (epics s'') (bid c) = None \<or> map_of (epics s) (bid c) \<noteq> None" for c
  proof -
    have e1: "map_of (epics s') (bid c) = None \<or> map_of (epics s) (bid c) \<noteq> None"
    proof (cases "map_of (epics s') (bid c) = None")
      case True then show ?thesis by simp
    next
      case False
      then have "map_of (epics s'') (bid c) = map_of (epics s') (bid c)" by (rule promotesD(6)[OF b])
      with False have "map_of (epics s'') (bid c) \<noteq> None" by simp
      with d show ?thesis by simp
    qed
    have c': "c \<in> set (standalone s')" by (rule promotesD(8)[OF a c e1])
    have e2: "map_of (epics s'') (bid c) = None \<or> map_of (epics s') (bid c) \<noteq> None"
    proof (cases "map_of (epics s) (bid c) = None")
      case True with d show ?thesis by simp
    next
      case False
      then have "map_of (epics s') (bid c) = map_of (epics s) (bid c)" by (rule promotesD(6)[OF a])
      with False show ?thesis by simp
    qed
    show ?thesis by (rule promotesD(8)[OF b c' e2])
  qed
  show "grows is_bd s s''" by (rule grows_trans[OF promotesD(9)[OF a] promotesD(9)[OF b]])
qed

lemma resolved_promotes:
  assumes "resolved env p s s'"
  shows "promotes s s'"
proof -
  from assms have R: "subtasks s' = subtasks s" "bead_to_flow s' = bead_to_flow s" "ncalls s' = ncalls s"
      "trace s' = trace s @ (if map_of (epics s) p = None then [show_cmd p] else [])"
      "\<forall>q. q \<noteq> p \<longrightarrow> map_of (epics s') q = map_of (epics s) q"
      "map_of (epics s) p \<noteq> None \<longrightarrow> map_of (epics s') p = map_of (epics s) p"
      "distinct (map fst (epics s)) \<longrightarrow> distinct (map fst (epics s'))"
      "standalone s' = standalone s \<and> map_of (epics s') p = map_of (epics s) p \<or>
       standalone s' = filter (\<lambda>b. bid b \<noteq> p) (standalone s) \<and> map_of (epics s) p = None \<and>
        map_of (epics s') p \<noteq> None"
    unfolding resolved_def by simp_all
  have 3: "set (standalone s') \<subseteq> set (standalone s)" using R(8) by auto
  have 4: "\<forall>q. map_of (epics s) q \<noteq> None \<longrightarrow> map_of (epics s') q = map_of (epics s) q"
    using R(5,6) by metis
  have 5: "\<forall>q. map_of (epics s) q = None \<longrightarrow> map_of (epics s') q \<noteq> None \<longrightarrow>
          q \<notin> bid ` set (standalone s')"
  proof (intro allI impI)
    fix q assume q: "map_of (epics s) q = None" "map_of (epics s') q \<noteq> None"
    then have "q = p" using R(5) by metis
    with q R(8) have "standalone s' = filter (\<lambda>b. bid b \<noteq> p) (standalone s)" by auto
    then show "q \<notin> bid ` set (standalone s')" using \<open>q = p\<close> by auto
  qed
  have 6: "\<forall>b \<in> set (standalone s). map_of (epics s') (bid b) = None \<or> map_of (epics s) (bid b) \<noteq> None \<longrightarrow>
          b \<in> set (standalone s')"
  proof (intro ballI impI)
    fix c assume c: "c \<in> set (standalone s)"
      and d: "map_of (epics s') (bid c) = None \<or> map_of (epics s) (bid c) \<noteq> None"
    from R(8) show "c \<in> set (standalone s')"
    proof
      assume "standalone s' = standalone s \<and> map_of (epics s') p = map_of (epics s) p"
      with c show ?thesis by simp
    next
      assume f: "standalone s' = filter (\<lambda>b. bid b \<noteq> p) (standalone s) \<and> map_of (epics s) p = None \<and>
        map_of (epics s') p \<noteq> None"
      with d have "bid c \<noteq> p" by auto
      with f c show ?thesis by simp
    qed
  qed
  have 7: "grows is_bd s s'"
    by (rule growsI[OF R(4)]) (simp add: show_cmd_def)
  show ?thesis unfolding promotes_def using R(1,2,3,7) 3 4 5 6 7 by blast
qed

lemma resolve_loop_promotes: "promotes s (final (for_each (resolve_parent env) ps s))"
proof (rule for_each_final_induct)
  show "\<And>x s. x \<in> set ps \<Longrightarrow> promotes s (final (resolve_parent env x s))"
    by (rule resolved_promotes[OF resolve_parent_resolved])
  show "\<And>s. promotes s s" by (rule promotes_refl)
  show "\<And>s s' s''. promotes s s' \<Longrightarrow> promotes s' s'' \<Longrightarrow> promotes s s''" by (rule promotes_trans)
qed

lemma resolvedD:
  assumes "resolved env p s s'"
  shows "trace s' = trace s @ (if map_of (epics s) p = None then [show_cmd p] else [])"
    "q \<noteq> p \<Longrightarrow> map_of (epics s') q = map_of (epics s) q"
  using assms unfolding resolved_def by blast+

lemma show_cmd_inj [simp]: "show_cmd q = show_cmd p \<longleftrightarrow> q = p"
  by (simp add: show_cmd_def)

text \<open>The loop over distinct keys asks once for each key that is not an epic yet.\<close>

lemma resolve_loop_count:
  assumes "distinct ps"
  shows "count_list (trace (final (for_each (resolve_parent env) ps s))) (show_cmd q)
           \<le> count_list (trace s) (show_cmd q) + (if q \<in> set ps \<and> map_of (epics s) q = None then 1 else 0) \<and>
         (raised (for_each (resolve_parent env) ps s) = None \<longrightarrow>
          count_list (trace (final (for_each (resolve_parent env) ps s))) (show_cmd q)
           = count_list (trace s) (show_cmd q) + (if q \<in> set ps \<and> map_of (epics s) q = None then 1 else 0))"
  using assms
proof (induction ps arbitrary: s)
  case Nil
  show ?case by simp
next
  case (Cons p ps)
  have pn: "p \<notin> set ps" and dps: "distinct ps" using Cons.prems by auto
  let ?s1 = "final (resolve_parent env p s)"
  have r: "resolved env p s ?s1" by (rule resolve_parent_resolved)
  have t1: "count_list (trace ?s1) (show_cmd q)
      = count_list (trace s) (show_cmd q) + (if q = p \<and> map_of (epics s) p = None then 1 else 0)"
    unfolding resolvedD(1)[OF r] by simp
  show ?case
  proof (cases "resolve_parent env p s")
    case (Inl a)
    obtain e s' where a: "a = (e, s')" by (cases a)
    have fin: "for_each (resolve_parent env) (p # ps) s = Inl (e, s')" using Inl a by simp
    have s1: "?s1 = s'" using Inl a by simp
    show ?thesis unfolding fin final_simps raised_simps using t1 unfolding s1 by auto
  next
    case (Inr s')
    have fin: "for_each (resolve_parent env) (p # ps) s = for_each (resolve_parent env) ps s'"
      using Inr by simp
    have s1: "?s1 = s'" using Inr by simp
    have cond: "(q \<in> set ps \<and> map_of (epics s') q = None) = (q \<in> set ps \<and> map_of (epics s) q = None)"
    proof (cases "q = p")
      case True
      with pn show ?thesis by simp
    next
      case False
      from resolvedD(2)[OF r False] s1 show ?thesis by simp
    qed
    have split: "(if q \<in> set (p # ps) \<and> map_of (epics s) q = None then 1 else 0 :: nat)
       = (if q = p \<and> map_of (epics s) p = None then 1 else 0)
         + (if q \<in> set ps \<and> map_of (epics s) q = None then 1 else 0)"
      using pn by auto
    from Cons.IH[OF dps, of s'] t1 show ?thesis
      unfolding fin s1 cond split by simp
  qed
qed

lemma resolve_loop_outside:
  "q \<notin> set ps \<Longrightarrow> map_of (epics (final (for_each (resolve_parent env) ps s))) q = map_of (epics s) q"
proof (induction ps arbitrary: s)
  case Nil
  show ?case by simp
next
  case (Cons p ps)
  then have qp: "q \<noteq> p" and qps: "q \<notin> set ps" by auto
  let ?s1 = "final (resolve_parent env p s)"
  have r: "resolved env p s ?s1" by (rule resolve_parent_resolved)
  note k = resolvedD(2)[OF r qp]
  show ?case
  proof (cases "resolve_parent env p s")
    case (Inl a)
    obtain e s' where a: "a = (e, s')" by (cases a)
    with Inl k show ?thesis by simp
  next
    case (Inr s')
    with k Cons.IH[OF qps, of s'] show ?thesis by simp
  qed
qed

lemma resolve_parent_ok:
  assumes "resolve_parent env p s = Inr s'"
  shows "map_of (epics s') p \<noteq> None \<or> loads_beads env (stdout (bd_show env p)) = Some []"
proof (cases "map_of (epics s) p")
  case None
  from assms show ?thesis
    unfolding resolve_parent_fetch[OF None]
    by (auto simp: update_conv' split: option.splits list.splits)
next
  case (Some e)
  with assms show ?thesis by (simp add: resolve_parent_known)
qed

lemma resolve_loop_covers:
  assumes "for_each (resolve_parent env) ps s = Inr s'" and "p \<in> set ps"
  shows "map_of (epics s') p \<noteq> None \<or> loads_beads env (stdout (bd_show env p)) = Some []"
  using assms
proof (induction ps arbitrary: s)
  case Nil
  then show ?case by simp
next
  case (Cons x xs)
  from Cons.prems(1) obtain s1 where s1: "resolve_parent env x s = Inr s1"
    and rest: "for_each (resolve_parent env) xs s1 = Inr s'"
    by (auto split: sum.splits)
  show ?case
  proof (cases "p \<in> set xs")
    case True
    then show ?thesis by (rule Cons.IH[OF rest])
  next
    case False
    with Cons.prems(2) have px: "p = x" by simp
    have pr: "promotes s1 s'" using resolve_loop_promotes[of s1 env xs] rest by simp
    from resolve_parent_ok[OF s1] show ?thesis
    proof
      assume k: "map_of (epics s1) x \<noteq> None"
      from promotesD(6)[OF pr k] k px show ?thesis by simp
    next
      assume "loads_beads env (stdout (bd_show env x)) = Some []"
      with px show ?thesis by simp
    qed
  qed
qed








lemma classify_bead_emit: "classify_bead (emit e s) b = emit e (classify_bead s b)"
  by (simp add: classify_bead_cases emit_def)

lemma classify_emit: "classify bs (emit e s) = emit e (classify bs s)"
  by (induction bs rule: rev_induct) (simp_all add: classify_snoc classify_bead_emit)

lemma listed_fields [simp]:
  "epics (listed beads) = epics (classify beads init_state)"
  "subtasks (listed beads) = subtasks (classify beads init_state)"
  "standalone (listed beads) = standalone (classify beads init_state)"
  "bead_to_flow (listed beads) = []" "ncalls (listed beads) = 0"
  "trace (listed beads) = [list_cmd]"
  by (simp_all add: listed_def classify_emit init_state_def)

lemma discover_cases:
  "discover env =
     (case loads_beads env (stdout (bd_list env)) of
        None \<Rightarrow> Inl (JSONDecodeError, emit list_cmd init_state)
      | Some beads \<Rightarrow>
          for_each (resolve_parent env) (map fst (subtasks (classify beads init_state))) (listed beads))"
  by (simp add: discover_def get_beads_def listed_def list_cmd_def classify_emit Let_def
      split: option.splits)


lemma discover_mapping: "bead_to_flow (final (discover env)) = []"
proof (cases "loads_beads env (stdout (bd_list env))")
  case None
  then show ?thesis by (simp add: discover_cases init_state_def)
next
  case (Some beads)
  show ?thesis
    using promotesD(2)[OF resolve_loop_promotes[of "listed beads" env
          "map fst (subtasks (classify beads init_state))"]]
    by (simp add: discover_cases Some)
qed

text \<open>After discovery the run either aborts or reaches the mapping file.\<close>

lemma write_mapping_Inr: "\<exists>t. write_mapping s = Inr t"
  by (simp add: write_mapping_def Let_def)

lemma main_outcome:
  assumes "discover env = Inr s2"
  shows "\<exists>t. advances s2 t \<and> (main env = write_mapping t \<or> (\<exists>e. main env = Inl (e, t)))"
proof (cases "migrate_epics env s2")
  case (Inl a)
  obtain e t where a: "a = (e, t)" by (cases a)
  have "advances s2 t" using migrate_epics_advances[of s2 env] Inl a by simp
  moreover have "main env = Inl (e, t)" using assms Inl a by (simp add: main_def)
  ultimately show ?thesis by blast
next
  case (Inr s3)
  have a3: "advances s2 s3" using migrate_epics_advances[of s2 env] Inr by simp
  show ?thesis
  proof (cases "migrate_standalone env s3")
    case (Inl a)
    obtain e t where a: "a = (e, t)" by (cases a)
    have "advances s3 t" using migrate_standalone_advances[of s3 env] Inl a by simp
    with a3 have "advances s2 t" by (rule advances_trans)
    moreover have "main env = Inl (e, t)" using assms Inr Inl a by (simp add: main_def)
    ultimately show ?thesis by blast
  next
    case s4: (Inr s4)
    have "advances s3 s4" using migrate_standalone_advances[of s3 env] s4 by simp
    with a3 have a4: "advances s2 s4" by (rule advances_trans)
    show ?thesis
    proof (cases "migrate_subtasks env s4")
      case (Inl a)
      obtain e t where a: "a = (e, t)" by (cases a)
      have "advances s4 t" using migrate_subtasks_advances[of s4 env] Inl a by simp
      with a4 have "advances s2 t" by (rule advances_trans)
      moreover have "main env = Inl (e, t)" using assms Inr s4 Inl a by (simp add: main_def)
      ultimately show ?thesis by blast
    next
      case s5: (Inr s5)
      have "advances s4 s5" using migrate_subtasks_advances[of s4 env] s5 by simp
      with a4 have "advances s2 s5" by (rule advances_trans)
      moreover have "main env = write_mapping s5" using assms Inr s4 s5 by (simp add: main_def)
      ultimately show ?thesis by blast
    qed
  qed
qed

lemma later_not_bd: "later_event e \<Longrightarrow> \<not> is_bd e"
proof (cases e)
  case (Run cmd)
  assume "later_event e"
  with Run show ?thesis by (cases cmd) (auto simp: numeral_2_eq_2)
qed simp_all



lemma advancesD:
  assumes "advances s s'"
  shows "epics s' = epics s" "standalone s' = standalone s" "mapped s \<subseteq> mapped s'"
    "distinct (map fst (bead_to_flow s)) \<Longrightarrow> distinct (map fst (bead_to_flow s'))"
    "grows later_event s s'"
  using assms unfolding advances_def by blast+

lemma grows_count:
  assumes "grows P s s'" and "\<not> P e"
  shows "count_list (trace s') e = count_list (trace s) e"
proof -
  from growsD[OF assms(1)] have t: "trace s' = trace s @ new_events s s'"
    and p: "list_all P (new_events s s')" by simp_all
  have "e \<notin> set (new_events s s')" using p assms(2) by (auto simp: list_all_iff)
  then have "count_list (new_events s s') e = 0" by (simp add: count_list_0_iff)
  with t show ?thesis by simp
qed



lemma write_mapping_eq:
  "write_mapping s = Inr (s\<lparr>trace := trace s @
     [WriteJson mapping_path (bead_to_flow s),
      Stdout (nl @ ''=== Migration complete ===''),
      Stdout (''Mapping saved to '' @ mapping_path),
      Stdout (''Epics: '' @ str_nat (length (filter (\<lambda>k. dot \<notin> set k) (map fst (bead_to_flow s))))),
      Stdout (''Tasks: '' @ str_nat (length (filter (\<lambda>k. dot \<in> set k) (map fst (bead_to_flow s)))))]\<rparr>)"
  by (simp add: write_mapping_def emit_def Let_def)

lemma main_final_frame:
  assumes "discover env = Inr s2"
  shows "epics (final (main env)) = epics s2" "standalone (final (main env)) = standalone s2"
    "is_bd e \<Longrightarrow> count_list (trace (final (main env))) e = count_list (trace s2) e"
proof -
  from main_outcome[OF assms] obtain t where a: "advances s2 t"
    and m: "main env = write_mapping t \<or> (\<exists>e. main env = Inl (e, t))" by blast
  have c: "is_bd e \<Longrightarrow> count_list (trace t) e = count_list (trace s2) e"
    using grows_count[OF advancesD(5)[OF a], of e] later_not_bd[of e] by blast
  from m show "epics (final (main env)) = epics s2"
    using advancesD(1)[OF a] by (auto simp: write_mapping_eq)
  from m show "standalone (final (main env)) = standalone s2"
    using advancesD(2)[OF a] by (auto simp: write_mapping_eq)
  from m show "is_bd e \<Longrightarrow> count_list (trace (final (main env))) e = count_list (trace s2) e"
    using c by (cases e) (auto simp: write_mapping_eq)
qed



end
